theory Spec2Isabelle
  imports Complex_Main "HOL-Library.Sublist"
begin

section \<open>Text of a tweet\<close>

text \<open>
  A Python \<open>str\<close> is a sequence of code points. The model is \<open>string\<close>, a list of
  \<open>char\<close>, each \<open>char\<close> standing for one code point in the range 0..255 (Latin-1).
  The two character classes the program relies on are those of CPython for that range:
  \<open>isspace\<close> is the class used by \<open>str.split()\<close>, \<open>str.strip()\<close> and by the regular
  expression escapes \<open>\s\<close>/\<open>\S\<close>; \<open>isword\<close> is the class of \<open>\w\<close> (alphanumeric
  code points and the underscore).
\<close>

definition isspace :: "char \<Rightarrow> bool" where
  "isspace c =
     (let n = (of_char c :: nat)
      in (9 \<le> n \<and> n \<le> 13) \<or> (28 \<le> n \<and> n \<le> 32) \<or> n = 133 \<or> n = 160)"

definition isalnum :: "char \<Rightarrow> bool" where
  "isalnum c =
     (let n = (of_char c :: nat)
      in (48 \<le> n \<and> n \<le> 57) \<or> (65 \<le> n \<and> n \<le> 90) \<or> (97 \<le> n \<and> n \<le> 122)
         \<or> n = 170 \<or> n = 178 \<or> n = 179 \<or> n = 181 \<or> n = 185 \<or> n = 186
         \<or> (188 \<le> n \<and> n \<le> 190) \<or> (192 \<le> n \<and> n \<le> 214)
         \<or> (216 \<le> n \<and> n \<le> 246) \<or> (248 \<le> n \<and> n \<le> 255))"

definition isword :: "char \<Rightarrow> bool" where
  "isword c = (isalnum c \<or> c = CHR ''_'')"

definition nonspace :: "char \<Rightarrow> bool" where
  "nonspace c = (\<not> isspace c)"

section \<open>The regular expressions of the cleaner\<close>

text \<open>
  The patterns of \<open>clean_text\<close> are alternations of sequences whose items are a literal
  string or a greedy one-or-more repetition of a character class (\<open>\S+\<close>, \<open>\w+\<close>).
  \<open>match_seq\<close> is the backtracking matcher for one alternative, anchored at the start
  of its input: a repetition first takes the longest run of its class and gives characters
  back one at a time until the rest of the sequence matches. The result is the text left
  after the match. \<open>match_alt\<close> tries the alternatives from left to right.
\<close>

datatype item = Lit string | OneOrMore "char \<Rightarrow> bool"

type_synonym pattern = "item list list"

fun first_some :: "'a option list \<Rightarrow> 'a option" where
  "first_some [] = None"
| "first_some (Some x # xs) = Some x"
| "first_some (None # xs) = first_some xs"

fun match_seq :: "item list \<Rightarrow> string \<Rightarrow> string option" where
  "match_seq [] s = Some s"
| "match_seq (Lit l # items) s =
     (if prefix l s then match_seq items (drop (length l) s) else None)"
| "match_seq (OneOrMore cls # items) s =
     first_some (map (\<lambda>k. match_seq items (drop k s))
                     (rev [1 ..< Suc (length (takeWhile cls s))]))"

definition match_alt :: "pattern \<Rightarrow> string \<Rightarrow> string option" where
  "match_alt p s = first_some (map (\<lambda>alt. match_seq alt s) p)"

text \<open>
  \<open>re.sub(pattern, repl, string)\<close>: scan from the left; where the pattern matches, emit
  the replacement and go on after the match, otherwise copy one character. Only matches
  that consume at least one character are replaced here; the patterns of this program
  never match the empty string.
\<close>

fun re_sub :: "pattern \<Rightarrow> string \<Rightarrow> string \<Rightarrow> string" where
  "re_sub p repl [] = []"
| "re_sub p repl (c # cs) =
     (case match_alt p (c # cs) of
        Some rest \<Rightarrow>
          if length rest < length (c # cs) then repl @ re_sub p repl rest
          else c # re_sub p repl cs
      | None \<Rightarrow> c # re_sub p repl cs)"

text \<open>\<open>r'http\S+|www\S+|https\S+'\<close> and \<open>r'@\w+|#\w+'\<close>.\<close>

definition url_pattern :: pattern where
  "url_pattern =
     [[Lit ''http'', OneOrMore nonspace],
      [Lit ''www'', OneOrMore nonspace],
      [Lit ''https'', OneOrMore nonspace]]"

definition tag_pattern :: pattern where
  "tag_pattern = [[Lit ''@'', OneOrMore isword], [Lit ''#'', OneOrMore isword]]"

section \<open>Whitespace\<close>

text \<open>
  \<open>str.split()\<close> without arguments: skip whitespace, take the maximal run of other
  characters as a word, repeat until the text is used up.
\<close>

function split :: "string \<Rightarrow> string list" where
  "split s =
     (case dropWhile isspace s of
        [] \<Rightarrow> []
      | c # cs \<Rightarrow> takeWhile nonspace (c # cs) # split (dropWhile nonspace (c # cs)))"
  by pat_completeness auto
termination
proof (relation "measure length")
  show "wf (measure length)" by simp
next
  fix s :: string and c cs
  assume a: "dropWhile isspace s = c # cs"
  have "\<not> isspace c" using a by (metis hd_dropWhile list.sel(1) list.distinct(1))
  then have "length (dropWhile nonspace (c # cs)) \<le> length cs"
    by (simp add: nonspace_def length_dropWhile_le)
  also have "length cs < length (dropWhile isspace s)" using a by simp
  also have "\<dots> \<le> length s" by (rule length_dropWhile_le)
  finally show "(dropWhile nonspace (c # cs), s) \<in> measure length" by simp
qed

text \<open>\<open>sep.join(words)\<close>.\<close>

fun join :: "string \<Rightarrow> string list \<Rightarrow> string" where
  "join sep [] = []"
| "join sep [w] = w"
| "join sep (w # v # ws) = w @ sep @ join sep (v # ws)"

text \<open>\<open>str.strip()\<close> without arguments.\<close>

definition strip :: "string \<Rightarrow> string" where
  "strip s = rev (dropWhile isspace (rev (dropWhile isspace s)))"

section \<open>SentimentAnalyzer.clean_text\<close>

definition clean_text :: "string \<Rightarrow> string" where
  "clean_text text =
     (let text1 = re_sub url_pattern [] text;
          text2 = re_sub tag_pattern [] text1;
          text3 = join '' '' (split text2)
      in strip text3)"

section \<open>SentimentAnalyzer.analyze_sentiment\<close>

text \<open>
  The external scorer (\<open>TextBlob(cleaned_text).sentiment\<close>) is a parameter: given the
  cleaned text it either raises an exception, modelled by the exception's message, or
  returns the pair of polarity and subjectivity. Scores are modelled as real numbers.
\<close>

type_synonym exn = string

type_synonym scorer = "string \<Rightarrow> exn + real \<times> real"

record SentimentResult =
  cleaned_text :: string
  polarity :: real
  subjectivity :: real
  sentiment_label :: string
  confidence :: real

text \<open>
  The analyzer object holds its logger (named after the module). Calls run in a state made
  of the analyzer object and of the records the logging system has received so far.
\<close>

record SentimentAnalyzer =
  logger :: string

datatype level = INFO | ERROR

type_synonym log_record = "string \<times> level \<times> string"

record state =
  self :: SentimentAnalyzer
  records :: "log_record list"

definition log_to :: "level \<Rightarrow> string \<Rightarrow> state \<Rightarrow> state" where
  "log_to lvl msg st = st\<lparr>records := records st @ [(logger (self st), lvl, msg)]\<rparr>"

text \<open>\<open>SentimentAnalyzer()\<close>: the constructor sets the logger up; nothing is logged yet.\<close>

definition init :: state where
  "init = \<lparr>self = \<lparr>logger = ''scripts.processing.sentiment_analyzer''\<rparr>, records = []\<rparr>"

text \<open>The body of the \<open>try\<close> block: \<open>Inl\<close> is an exception raised inside it.\<close>

definition try_analyze :: "scorer \<Rightarrow> string \<Rightarrow> exn + SentimentResult" where
  "try_analyze score text =
     (let cleaned = clean_text text
      in case score cleaned of
           Inl e \<Rightarrow> Inl e
         | Inr (pol, subj) \<Rightarrow>
             let label = (if pol > 0.1 then ''positive''
                          else if pol < - 0.1 then ''negative''
                          else ''neutral'')
             in Inr \<lparr>cleaned_text = cleaned, polarity = pol, subjectivity = subj,
                     sentiment_label = label, confidence = \<bar>pol\<bar>\<rparr>)"

definition analyze_sentiment :: "scorer \<Rightarrow> string \<Rightarrow> state \<Rightarrow> SentimentResult \<times> state" where
  "analyze_sentiment score text st =
     (case try_analyze score text of
        Inr result \<Rightarrow> (result, st)
      | Inl e \<Rightarrow>
          (\<lparr>cleaned_text = text, polarity = 0, subjectivity = 0,
            sentiment_label = ''neutral'', confidence = 0\<rparr>,
           log_to ERROR (''Error analyzing sentiment: '' @ e) st))"

section \<open>SentimentAnalyzer.batch_analyze\<close>

text \<open>
  A row of the input frame is any record with a \<open>text\<close> field (\<open>text_field\<close> here). The loop appends one
  result per row; \<open>pd.concat(..., axis=1)\<close> then puts the i-th result beside the i-th row
  of the re-indexed input, which is \<open>zip\<close>.
\<close>

record TextRecord =
  text_field :: string

fun batch_loop ::
  "scorer \<Rightarrow> 'a TextRecord_scheme list \<Rightarrow> SentimentResult list \<Rightarrow> state
     \<Rightarrow> SentimentResult list \<times> state" where
  "batch_loop score [] sentiment_results st = (sentiment_results, st)"
| "batch_loop score (tweet # rest) sentiment_results st =
     (let (sentiment, st') = analyze_sentiment score (text_field tweet) st
      in batch_loop score rest (sentiment_results @ [sentiment]) st')"

fun str_nat :: "nat \<Rightarrow> string" where
  "str_nat n =
     (if n < 10 then [char_of (48 + n)]
      else str_nat (n div 10) @ [char_of (48 + n mod 10)])"

definition batch_analyze ::
  "scorer \<Rightarrow> 'a TextRecord_scheme list \<Rightarrow> state
     \<Rightarrow> ('a TextRecord_scheme \<times> SentimentResult) list \<times> state" where
  "batch_analyze score tweets_df st =
     (let (sentiment_results, st') = batch_loop score tweets_df [] st;
          result_df = zip tweets_df sentiment_results
      in (result_df,
          log_to INFO (''Analyzed sentiment for '' @ str_nat (length result_df) @ '' tweets'')
            st'))"

section \<open>The Spark UDF of add_sentiment_analysis\<close>

text \<open>
  \<open>analyze_sentiment_udf\<close> repeats the cleaning and the classification inline and
  returns a tuple without the cleaned text; its bare \<open>except\<close> returns the defaults and
  logs nothing. \<open>float\<close> of a score is the score.
\<close>

definition analyze_sentiment_udf :: "scorer \<Rightarrow> string \<Rightarrow> real \<times> real \<times> string \<times> real" where
  "analyze_sentiment_udf score text =
     (let cleaned1 = re_sub url_pattern [] text;
          cleaned2 = re_sub tag_pattern [] cleaned1;
          cleaned = strip (join '' '' (split cleaned2))
      in case score cleaned of
           Inl e \<Rightarrow> (0, 0, ''neutral'', 0)
         | Inr (pol, subj) \<Rightarrow>
             let label = (if pol > 0.1 then ''positive''
                          else if pol < - 0.1 then ''negative''
                          else ''neutral'')
             in (pol, subj, label, \<bar>pol\<bar>))"

section \<open>The cleaning steps as the specification words them\<close>

text \<open>
  The language of a pattern: \<open>matches p m\<close> holds when the whole of \<open>m\<close> is a match of
  \<open>p\<close>. This is what \<open>a substring matching the pattern\<close> means.
\<close>

fun matches_seq :: "item list \<Rightarrow> string \<Rightarrow> bool" where
  "matches_seq [] m = (m = [])"
| "matches_seq (Lit l # items) m = (prefix l m \<and> matches_seq items (drop (length l) m))"
| "matches_seq (OneOrMore cls # items) m =
     list_ex (\<lambda>k. matches_seq items (drop k m)) [1 ..< Suc (length (takeWhile cls m))]"

definition matches :: "pattern \<Rightarrow> string \<Rightarrow> bool" where
  "matches p m = list_ex (\<lambda>alt. matches_seq alt m) p"

text \<open>
  Step 1, \<open>remove all substrings matching a URL pattern (http..., www..., https...)\<close>, and
  step 2, \<open>remove all @token and #token substrings\<close>. A URL starts where \<open>http\<close>,
  \<open>www\<close> or \<open>https\<close> is followed by a character that is not whitespace, and runs up to
  the next whitespace; a token starts where \<open>@\<close> or \<open>#\<close> is followed by a word
  character, and runs up to the next character that is not one. \<open>remove_runs\<close> reads the
  text from the left and drops, at each start, the first character and the run after it.
\<close>

definition starts_with :: "string \<Rightarrow> (char \<Rightarrow> bool) \<Rightarrow> string \<Rightarrow> bool" where
  "starts_with lit cls s =
     (prefix lit s \<and> (case drop (length lit) s of [] \<Rightarrow> False | c # cs \<Rightarrow> cls c))"

definition url_start :: "string \<Rightarrow> bool" where
  "url_start s =
     (starts_with ''http'' nonspace s \<or> starts_with ''www'' nonspace s
      \<or> starts_with ''https'' nonspace s)"

definition tag_start :: "string \<Rightarrow> bool" where
  "tag_start s = (starts_with ''@'' isword s \<or> starts_with ''#'' isword s)"

function remove_runs :: "(string \<Rightarrow> bool) \<Rightarrow> (char \<Rightarrow> bool) \<Rightarrow> string \<Rightarrow> string" where
  "remove_runs start cls [] = []"
| "remove_runs start cls (c # cs) =
     (if start (c # cs) then remove_runs start cls (dropWhile cls cs)
      else c # remove_runs start cls cs)"
  by pat_completeness auto
termination
  by (relation "measure (\<lambda>(start, cls, s). length s)")
     (auto simp: less_Suc_eq_le length_dropWhile_le)

definition remove_urls :: "string \<Rightarrow> string" where
  "remove_urls s = remove_runs url_start nonspace s"

definition remove_tags :: "string \<Rightarrow> string" where
  "remove_tags s = remove_runs tag_start isword s"

text \<open>
  Step 3, \<open>collapse all whitespace runs to single spaces and trim leading and trailing
  whitespace\<close>.
\<close>

function collapse_whitespace :: "string \<Rightarrow> string" where
  "collapse_whitespace [] = []"
| "collapse_whitespace (c # cs) =
     (if isspace c then CHR '' '' # collapse_whitespace (dropWhile isspace cs)
      else c # collapse_whitespace cs)"
  by pat_completeness auto
termination
  by (relation "measure length") (auto simp: less_Suc_eq_le length_dropWhile_le)

definition trim :: "string \<Rightarrow> string" where
  "trim s = rev (dropWhile isspace (rev (dropWhile isspace s)))"

definition clean_spec :: "string \<Rightarrow> string" where
  "clean_spec s = trim (collapse_whitespace (remove_tags (remove_urls s)))"

section \<open>Results of analyze_sentiment\<close>

lemma analyze_sentiment_failure:
  "score (clean_text text) = Inl e \<Longrightarrow>
     fst (analyze_sentiment score text st) =
       \<lparr>cleaned_text = text, polarity = 0, subjectivity = 0,
        sentiment_label = ''neutral'', confidence = 0\<rparr>"
  by (simp add: analyze_sentiment_def try_analyze_def)

lemma analyze_sentiment_success:
  "score (clean_text text) = Inr (p, s) \<Longrightarrow>
     fst (analyze_sentiment score text st) =
       \<lparr>cleaned_text = clean_text text, polarity = p, subjectivity = s,
        sentiment_label = (if p > 0.1 then ''positive''
                           else if p < - 0.1 then ''negative'' else ''neutral''),
        confidence = \<bar>p\<bar>\<rparr>"
  by (simp add: analyze_sentiment_def try_analyze_def Let_def)

lemma analyze_sentiment_any_state:
  "fst (analyze_sentiment score text st) = fst (analyze_sentiment score text st')"
  by (simp add: analyze_sentiment_def split: sum.splits)

lemma udf_failure:
  "score (clean_text text) = Inl e \<Longrightarrow>
     analyze_sentiment_udf score text = (0, 0, ''neutral'', 0)"
  by (simp add: analyze_sentiment_udf_def clean_text_def Let_def)

lemma udf_success:
  "score (clean_text text) = Inr (p, s) \<Longrightarrow>
     analyze_sentiment_udf score text =
       (p, s, (if p > 0.1 then ''positive''
               else if p < - 0.1 then ''negative'' else ''neutral''), \<bar>p\<bar>)"
  by (simp add: analyze_sentiment_udf_def clean_text_def Let_def)

text \<open>
  C1. Whatever the scorer does, the label of the result follows the threshold rule on the
  polarity of the result: positive exactly above 0.1, negative exactly below -0.1, neutral
  exactly in between, both bounds included; the polarity of the result is the one the scorer
  returned, when it returned one. The inline copy of the rule in the Spark UDF behaves the
  same.
\<close>

theorem sentiment_label_threshold_rule:
  "(sentiment_label (fst (analyze_sentiment score text st)) = ''positive''
      \<longleftrightarrow> polarity (fst (analyze_sentiment score text st)) > 0.1)
   \<and> (sentiment_label (fst (analyze_sentiment score text st)) = ''negative''
      \<longleftrightarrow> polarity (fst (analyze_sentiment score text st)) < - 0.1)
   \<and> (sentiment_label (fst (analyze_sentiment score text st)) = ''neutral''
      \<longleftrightarrow> - 0.1 \<le> polarity (fst (analyze_sentiment score text st))
          \<and> polarity (fst (analyze_sentiment score text st)) \<le> 0.1)
   \<and> (\<forall>p s. score (clean_text text) = Inr (p, s) \<longrightarrow>
          polarity (fst (analyze_sentiment score text st)) = p
        \<and> fst (analyze_sentiment_udf score text) = p)
   \<and> (case analyze_sentiment_udf score text of
        (pol, subj, label, conf) \<Rightarrow>
          (label = ''positive'' \<longleftrightarrow> pol > 0.1)
        \<and> (label = ''negative'' \<longleftrightarrow> pol < - 0.1)
        \<and> (label = ''neutral'' \<longleftrightarrow> - 0.1 \<le> pol \<and> pol \<le> 0.1))"
proof (cases "score (clean_text text)")
  case (Inl e)
  then show ?thesis
    by (simp add: analyze_sentiment_failure udf_failure)
next
  case (Inr ps)
  obtain p s where "ps = (p, s)" by (cases ps)
  with Inr have ok: "score (clean_text text) = Inr (p, s)" by simp
  show ?thesis
    by (simp add: ok analyze_sentiment_success udf_success)
qed

theorem sentiment_label_threshold_rule_witness:
  "(\<lambda>t. Inr (0.1, 0.5)) (clean_text ''fine @you'') = (Inr (0.1, 0.5) :: exn + real \<times> real)
   \<and> polarity (fst (analyze_sentiment (\<lambda>t. Inr (0.1, 0.5)) ''fine @you'' init)) = 0.1
   \<and> sentiment_label (fst (analyze_sentiment (\<lambda>t. Inr (0.1, 0.5)) ''fine @you'' init))
       = ''neutral''
   \<and> fst (analyze_sentiment_udf (\<lambda>t. Inr (0.1, 0.5)) ''fine @you'') = 0.1"
  using sentiment_label_threshold_rule [of "\<lambda>t. Inr (0.1, 0.5)" "''fine @you''" init]
  by (simp add: analyze_sentiment_def try_analyze_def analyze_sentiment_udf_def Let_def)

text \<open>
  C2. The only step of the \<open>try\<close> block that can fail on a string is the scorer. When it
  fails, the call still returns a result, and that result is the neutral default carrying
  the original, uncleaned text.
\<close>

theorem analyze_sentiment_failure_default:
  "(try_analyze score text = Inl e \<longleftrightarrow> score (clean_text text) = Inl e)
   \<and> (try_analyze score text = Inl e \<longrightarrow>
        fst (analyze_sentiment score text st) =
          \<lparr>cleaned_text = text, polarity = 0, subjectivity = 0,
           sentiment_label = ''neutral'', confidence = 0\<rparr>)"
proof -
  have "try_analyze score text = Inl e \<longleftrightarrow> score (clean_text text) = Inl e"
    by (auto simp: try_analyze_def Let_def split: sum.splits prod.splits)
  then show ?thesis
    by (simp add: analyze_sentiment_failure)
qed

theorem analyze_sentiment_failure_default_witness:
  "try_analyze (\<lambda>t. Inl ''boom'') ''see http://x.y  now'' = Inl ''boom''
   \<and> fst (analyze_sentiment (\<lambda>t. Inl ''boom'') ''see http://x.y  now'' init) =
       \<lparr>cleaned_text = ''see http://x.y  now'', polarity = 0, subjectivity = 0,
        sentiment_label = ''neutral'', confidence = 0\<rparr>"
  using analyze_sentiment_failure_default
          [of "\<lambda>t. Inl ''boom''" "''see http://x.y  now''" "''boom''" init]
  by (simp add: try_analyze_def)

text \<open>
  C4. In every result, from the success path or from the fallback, the confidence is the
  absolute value of the polarity.
\<close>

theorem confidence_is_abs_polarity:
  "confidence (fst (analyze_sentiment score text st)) =
     \<bar>polarity (fst (analyze_sentiment score text st))\<bar>"
  by (simp add: analyze_sentiment_def try_analyze_def Let_def split: sum.splits prod.splits)

text \<open>
  C8. The result of a call is a function of the scorer and of the text alone: it is the
  same in every state, so also after any earlier call. A call leaves the analyzer object as
  it was; its only effect is to add records to the log.
\<close>

theorem analyze_sentiment_stateless:
  "fst (analyze_sentiment score text st) = fst (analyze_sentiment score text st')
   \<and> fst (analyze_sentiment score text (snd (analyze_sentiment score text' st))) =
       fst (analyze_sentiment score text st)
   \<and> self (snd (analyze_sentiment score text st)) = self st
   \<and> prefix (records st) (records (snd (analyze_sentiment score text st)))"
proof -
  have "fst (analyze_sentiment score text st) = fst (analyze_sentiment score text st')"
    by (rule analyze_sentiment_any_state)
  moreover have "fst (analyze_sentiment score text (snd (analyze_sentiment score text' st))) =
       fst (analyze_sentiment score text st)"
    by (rule analyze_sentiment_any_state)
  moreover have "self (snd (analyze_sentiment score text st)) = self st"
    by (simp add: analyze_sentiment_def log_to_def split: sum.splits)
  moreover have "prefix (records st) (records (snd (analyze_sentiment score text st)))"
    by (simp add: analyze_sentiment_def log_to_def split: sum.splits)
  ultimately show ?thesis by simp
qed

text \<open>
  C9. For every text and every scorer, the tuple of the Spark UDF is made of the polarity,
  subjectivity, label and confidence of the result of \<open>analyze_sentiment\<close>; when the
  scorer fails both give 0.0, 0.0, neutral, 0.0.
\<close>

theorem udf_agrees_with_analyze_sentiment:
  "analyze_sentiment_udf score text =
     (polarity (fst (analyze_sentiment score text st)),
      subjectivity (fst (analyze_sentiment score text st)),
      sentiment_label (fst (analyze_sentiment score text st)),
      confidence (fst (analyze_sentiment score text st)))
   \<and> (\<forall>e. score (clean_text text) = Inl e \<longrightarrow>
         analyze_sentiment_udf score text = (0, 0, ''neutral'', 0))"
proof (cases "score (clean_text text)")
  case (Inl e)
  then show ?thesis
    by (simp add: analyze_sentiment_failure udf_failure)
next
  case (Inr ps)
  obtain p s where "ps = (p, s)" by (cases ps)
  with Inr have ok: "score (clean_text text) = Inr (p, s)" by simp
  show ?thesis
    by (simp add: ok analyze_sentiment_success udf_success)
qed

theorem udf_agrees_with_analyze_sentiment_witness:
  "(\<lambda>t. Inl ''boom'') (clean_text ''bad #day'') = (Inl ''boom'' :: exn + real \<times> real)
   \<and> analyze_sentiment_udf (\<lambda>t. Inl ''boom'') ''bad #day'' = (0, 0, ''neutral'', 0)
   \<and> polarity (fst (analyze_sentiment (\<lambda>t. Inl ''boom'') ''bad #day'' init)) = 0
   \<and> sentiment_label (fst (analyze_sentiment (\<lambda>t. Inl ''boom'') ''bad #day'' init)) = ''neutral''"
  using udf_agrees_with_analyze_sentiment [of "\<lambda>t. Inl ''boom''" "''bad #day''" init]
  by (simp add: analyze_sentiment_def try_analyze_def analyze_sentiment_udf_def Let_def)

section \<open>Results of batch_analyze\<close>

lemma batch_loop_results:
  "fst (batch_loop score tweets_df acc st) =
     acc @ map (\<lambda>tweet. fst (analyze_sentiment score (text_field tweet) st0)) tweets_df"
proof (induction tweets_df arbitrary: acc st)
  case Nil
  show ?case by simp
next
  case (Cons tweet rest)
  have "fst (analyze_sentiment score (text_field tweet) st) =
        fst (analyze_sentiment score (text_field tweet) st0)"
    by (rule analyze_sentiment_any_state)
  with Cons.IH show ?case by (simp add: case_prod_unfold Let_def)
qed

lemma batch_analyze_rows:
  "fst (batch_analyze score tweets_df st) =
     map (\<lambda>tweet. (tweet, fst (analyze_sentiment score (text_field tweet) st0))) tweets_df"
proof -
  have "fst (batch_analyze score tweets_df st) =
        zip tweets_df (fst (batch_loop score tweets_df [] st))"
    by (simp add: batch_analyze_def case_prod_unfold Let_def)
  also have "\<dots> = zip tweets_df
       (map (\<lambda>tweet. fst (analyze_sentiment score (text_field tweet) st0)) tweets_df)"
    by (simp add: batch_loop_results [where ?st0.0 = st0])
  also have "\<dots> =
       map (\<lambda>tweet. (tweet, fst (analyze_sentiment score (text_field tweet) st0))) tweets_df"
    by (simp add: zip_map2 zip_same_conv_map)
  finally show ?thesis .
qed

lemma analyze_sentiment_cleaned:
  "score (clean_text text) = Inr ps \<Longrightarrow>
     cleaned_text (fst (analyze_sentiment score text st)) = clean_text text"
  by (cases ps) (simp add: analyze_sentiment_success)

text \<open>
  C7. The batch returns one row per input row, in input order: the i-th row pairs the i-th
  input record with the result of the single-record analysis of its text, whatever state
  the earlier rows left. Where the scorer succeeds the cleaned text is the cleaning of the
  record's text; where it fails the row carries the neutral default and the other rows are
  computed all the same.
\<close>

theorem batch_analyze_rowwise:
  "length (fst (batch_analyze score tweets_df st)) = length tweets_df
   \<and> fst (batch_analyze score tweets_df st) =
       map (\<lambda>tweet. (tweet, fst (analyze_sentiment score (text_field tweet) st0))) tweets_df
   \<and> (\<forall>i < length tweets_df.
         fst (fst (batch_analyze score tweets_df st) ! i) = tweets_df ! i
       \<and> snd (fst (batch_analyze score tweets_df st) ! i) =
           fst (analyze_sentiment score (text_field (tweets_df ! i)) st0)
       \<and> (\<forall>ps. score (clean_text (text_field (tweets_df ! i))) = Inr ps \<longrightarrow>
            cleaned_text (snd (fst (batch_analyze score tweets_df st) ! i)) =
              clean_text (text_field (tweets_df ! i)))
       \<and> (\<forall>e. score (clean_text (text_field (tweets_df ! i))) = Inl e \<longrightarrow>
            snd (fst (batch_analyze score tweets_df st) ! i) =
              \<lparr>cleaned_text = text_field (tweets_df ! i), polarity = 0, subjectivity = 0,
               sentiment_label = ''neutral'', confidence = 0\<rparr>))"
proof -
  let ?f = "\<lambda>tweet. (tweet, fst (analyze_sentiment score (text_field tweet) st0))"
  have rows: "fst (batch_analyze score tweets_df st) = map ?f tweets_df"
    by (rule batch_analyze_rows)
  have len: "length (fst (batch_analyze score tweets_df st)) = length tweets_df"
    by (simp add: rows)
  have each: "fst (batch_analyze score tweets_df st) ! i = ?f (tweets_df ! i)"
    if "i < length tweets_df" for i
    using that by (simp add: rows)
  show ?thesis
    using rows len each
    by (auto simp: analyze_sentiment_failure analyze_sentiment_cleaned)
qed

theorem batch_analyze_rowwise_witness:
  "(1::nat) < length [\<lparr>text_field = ''I love this! @me''\<rparr>, \<lparr>text_field = '' bad  #x''\<rparr>,
                     \<lparr>text_field = ''ok''\<rparr>]
   \<and> (\<lambda>t. if t = ''bad'' then Inl ''boom'' else Inr (0.5::real, 0.25::real))
        (clean_text '' bad  #x'') = Inl ''boom''
   \<and> map snd (fst (batch_analyze (\<lambda>t. if t = ''bad'' then Inl ''boom'' else Inr (0.5, 0.25))
       [\<lparr>text_field = ''I love this! @me''\<rparr>, \<lparr>text_field = '' bad  #x''\<rparr>,
        \<lparr>text_field = ''ok''\<rparr>] init)) =
     [\<lparr>cleaned_text = ''I love this!'', polarity = 0.5, subjectivity = 0.25,
         sentiment_label = ''positive'', confidence = 0.5\<rparr>,
      \<lparr>cleaned_text = '' bad  #x'', polarity = 0, subjectivity = 0,
         sentiment_label = ''neutral'', confidence = 0\<rparr>,
      \<lparr>cleaned_text = ''ok'', polarity = 0.5, subjectivity = 0.25,
         sentiment_label = ''positive'', confidence = 0.5\<rparr>]"
proof -
  have c1: "clean_text ''I love this! @me'' = ''I love this!''" by code_simp
  have c2: "clean_text '' bad  #x'' = ''bad''" by code_simp
  have c3: "clean_text ''ok'' = ''ok''" by code_simp
  show ?thesis
    using batch_analyze_rowwise
       [of "\<lambda>t. if t = ''bad'' then Inl ''boom'' else Inr (0.5, 0.25)"
           "[\<lparr>text_field = ''I love this! @me''\<rparr>, \<lparr>text_field = '' bad  #x''\<rparr>,
             \<lparr>text_field = ''ok''\<rparr>]" init init]
    by (simp add: c1 c2 c3 analyze_sentiment_def try_analyze_def)
qed


section \<open>The matcher on the patterns of the cleaner\<close>

lemma first_some_longest:
  "first_some (map (\<lambda>k. Some (f k)) (rev [1 ..< Suc n])) = (if n = 0 then None else Some (f n))"
  by (cases n) simp_all

lemma match_lit_run:
  "match_seq [Lit l, OneOrMore cls] s =
     (if starts_with l cls s then Some (dropWhile cls (drop (length l) s)) else None)"
proof (cases "prefix l s")
  case False
  then show ?thesis by (simp add: starts_with_def)
next
  case True
  let ?r = "drop (length l) s"
  have run: "length (takeWhile cls ?r) = 0 \<longleftrightarrow> \<not> (case ?r of [] \<Rightarrow> False | c # cs \<Rightarrow> cls c)"
    by (cases ?r) simp_all
  have "match_seq [Lit l, OneOrMore cls] s =
          first_some (map (\<lambda>k. Some (drop k ?r)) (rev [1 ..< Suc (length (takeWhile cls ?r))]))"
    using True by simp
  also have "\<dots> = (if length (takeWhile cls ?r) = 0 then None
                    else Some (drop (length (takeWhile cls ?r)) ?r))"
    by (rule first_some_longest)
  also have "\<dots> = (if starts_with l cls s then Some (dropWhile cls ?r) else None)"
    using True run by (simp add: starts_with_def dropWhile_eq_drop)
  finally show ?thesis .
qed

lemma nonspace_letters [simp]:
  "nonspace CHR ''h''" "nonspace CHR ''t''" "nonspace CHR ''p''" "nonspace CHR ''w''"
  "nonspace CHR ''s''" "nonspace CHR ''@''" "nonspace CHR ''#''"
  by (simp_all add: nonspace_def isspace_def)

lemma isword_letters [simp]:
  "isword CHR ''h''" "isword CHR ''t''" "isword CHR ''p''" "isword CHR ''w''"
  "\<not> isword CHR ''@''" "\<not> isword CHR ''#''"
  by (simp_all add: isword_def isalnum_def)

lemma isspace_blank [simp]: "isspace CHR '' ''"
  by (simp add: isspace_def)

lemma isword_nonspace: "isword c \<Longrightarrow> nonspace c"
  by (auto simp: isword_def isalnum_def nonspace_def isspace_def Let_def)

lemma starts_with_https: "starts_with ''https'' cls s \<Longrightarrow> starts_with ''http'' nonspace s"
  by (auto simp: starts_with_def prefix_def)

lemma starts_with_Cons:
  "starts_with (a # l) cls s \<Longrightarrow> \<exists>cs. s = a # cs \<and> starts_with l cls cs"
  by (cases s) (auto simp: starts_with_def)

lemma starts_with_run:
  "starts_with l cls s \<Longrightarrow> list_all cls l \<Longrightarrow>
     dropWhile cls (drop (length l) s) = dropWhile cls s"
  by (auto simp: starts_with_def prefix_def list_all_iff dropWhile_append)

lemma match_url_alternative:
  assumes "list_all nonspace l" "l \<noteq> []"
  shows "match_seq [Lit l, OneOrMore nonspace] (c # cs) =
           (if starts_with l nonspace (c # cs) then Some (dropWhile nonspace cs) else None)"
proof (cases "starts_with l nonspace (c # cs)")
  case False
  then show ?thesis by (simp only: match_lit_run if_False)
next
  case True
  then have "nonspace c"
    using assms by (cases l) (auto simp: starts_with_def)
  with starts_with_run [OF True assms(1)]
  have "dropWhile nonspace (drop (length l) (c # cs)) = dropWhile nonspace cs" by simp
  with True show ?thesis by (simp only: match_lit_run if_True)
qed

lemma match_alt_url:
  "match_alt url_pattern (c # cs) =
     (if url_start (c # cs) then Some (dropWhile nonspace cs) else None)"
  using starts_with_https [of nonspace "c # cs"]
  by (auto simp: match_alt_def url_pattern_def url_start_def match_url_alternative
           simp del: match_seq.simps)

lemma match_alt_tag:
  "match_alt tag_pattern (c # cs) =
     (if tag_start (c # cs) then Some (dropWhile isword cs) else None)"
  by (auto simp: match_alt_def tag_pattern_def tag_start_def match_lit_run starts_with_def
           simp del: match_seq.simps)

lemma re_sub_url: "re_sub url_pattern [] s = remove_urls s"
  unfolding remove_urls_def
proof (induction url_start nonspace s rule: remove_runs.induct)
  case 1
  show ?case by simp
next
  case (2 c cs)
  have "length (dropWhile nonspace cs) < Suc (length cs)"
    by (simp add: less_Suc_eq_le length_dropWhile_le)
  with 2 show ?case by (simp add: match_alt_url)
qed

lemma re_sub_tag: "re_sub tag_pattern [] s = remove_tags s"
  unfolding remove_tags_def
proof (induction tag_start isword s rule: remove_runs.induct)
  case 1
  show ?case by simp
next
  case (2 c cs)
  have "length (dropWhile isword cs) < Suc (length cs)"
    by (simp add: less_Suc_eq_le length_dropWhile_le)
  with 2 show ?case by (simp add: match_alt_tag)
qed

section \<open>Removing runs\<close>

lemma dropWhile_prefix_all:
  "list_all cls w \<Longrightarrow> prefix w (dropWhile cls s) \<Longrightarrow> w = []"
proof (cases "dropWhile cls s")
  case Nil
  then show "prefix w (dropWhile cls s) \<Longrightarrow> w = []" by simp
next
  case (Cons d ds)
  then have "\<not> cls d" by (metis hd_dropWhile list.sel(1) list.distinct(1))
  with Cons show "list_all cls w \<Longrightarrow> prefix w (dropWhile cls s) \<Longrightarrow> w = []"
    by (cases w) auto
qed

lemma remove_runs_prefix:
  "list_all cls w \<Longrightarrow> prefix w (remove_runs start cls s) \<Longrightarrow> prefix w s"
proof (induction start cls s arbitrary: w rule: remove_runs.induct)
  case (1 start cls)
  then show ?case by simp
next
  case (2 start cls c cs)
  show ?case
  proof (cases "start (c # cs)")
    case True
    with "2.prems" have "prefix w (remove_runs start cls (dropWhile cls cs))" by simp
    with "2.IH"(1) [OF True "2.prems"(1)] have "prefix w (dropWhile cls cs)" .
    with "2.prems"(1) have "w = []" by (rule dropWhile_prefix_all)
    then show ?thesis by simp
  next
    case False
    with "2.prems" have p: "prefix w (c # remove_runs start cls cs)" by simp
    show ?thesis
    proof (cases w)
      case Nil
      then show ?thesis by simp
    next
      case (Cons a w')
      with p "2.prems"(1) have "a = c" "prefix w' (remove_runs start cls cs)" "list_all cls w'"
        by simp_all
      with "2.IH"(2) [OF False] Cons show ?thesis by simp
    qed
  qed
qed

lemma remove_runs_no_trigger:
  "list_all cls w \<Longrightarrow> (\<forall>t. prefix (a # w) t \<longrightarrow> start t) \<Longrightarrow>
     \<not> sublist (a # w) (remove_runs start cls s)"
proof (induction start cls s rule: remove_runs.induct)
  case (1 start cls)
  show ?case by simp
next
  case (2 start cls c cs)
  show ?case
  proof (cases "start (c # cs)")
    case True
    with "2.IH"(1) "2.prems" show ?thesis by simp
  next
    case False
    have "\<not> prefix (a # w) (c # remove_runs start cls cs)"
    proof
      assume "prefix (a # w) (c # remove_runs start cls cs)"
      then have "a = c" "prefix w (remove_runs start cls cs)" by simp_all
      with "2.prems"(1) have "prefix w cs" by (auto dest: remove_runs_prefix)
      with \<open>a = c\<close> have "prefix (a # w) (c # cs)" by simp
      with "2.prems"(2) False show False by blast
    qed
    with False "2.IH"(2) "2.prems" show ?thesis
      by (simp add: sublist_Cons_right)
  qed
qed

lemma remove_runs_fixpoint:
  "(\<And>t. suffix t s \<Longrightarrow> \<not> start t) \<Longrightarrow> remove_runs start cls s = s"
proof (induction s)
  case Nil
  show ?case by simp
next
  case (Cons c cs)
  have "\<not> start (c # cs)" using Cons.prems by simp
  moreover have "remove_runs start cls cs = cs"
    using Cons.prems by (intro Cons.IH) (simp add: suffix_ConsI)
  ultimately show ?case by simp
qed

section \<open>URLs and tokens after the substitutions\<close>

lemma starts_with_iff:
  "starts_with l cls t \<longleftrightarrow> (\<exists>c. cls c \<and> prefix (l @ [c]) t)"
proof
  assume "starts_with l cls t"
  then obtain c r where "t = l @ c # r" "cls c"
    by (auto simp: starts_with_def prefix_def split: list.splits)
  then show "\<exists>c. cls c \<and> prefix (l @ [c]) t" by (auto simp: prefix_def)
next
  assume "\<exists>c. cls c \<and> prefix (l @ [c]) t"
  then show "starts_with l cls t" by (auto simp: starts_with_def prefix_def)
qed

lemma url_start_iff:
  "url_start t \<longleftrightarrow>
     (\<exists>c. nonspace c \<and> (prefix (''http'' @ [c]) t \<or> prefix (''www'' @ [c]) t))"
proof -
  have "starts_with ''https'' nonspace t \<Longrightarrow> starts_with ''http'' nonspace t"
    by (rule starts_with_https)
  then have "url_start t \<longleftrightarrow> starts_with ''http'' nonspace t \<or> starts_with ''www'' nonspace t"
    by (auto simp: url_start_def)
  then show ?thesis by (simp only: starts_with_iff) blast
qed

lemma tag_start_iff:
  "tag_start t \<longleftrightarrow>
     (\<exists>c. isword c \<and> (prefix [CHR ''@'', c] t \<or> prefix [CHR ''#'', c] t))"
  unfolding tag_start_def starts_with_iff by auto

lemma remove_runs_clean:
  assumes trig: "\<And>t. start t \<Longrightarrow>
            \<exists>a w. list_all cls w \<and> prefix (a # w) t \<and> (\<forall>t'. prefix (a # w) t' \<longrightarrow> start t')"
    and suf: "suffix t (remove_runs start cls s)"
  shows "\<not> start t"
proof
  assume "start t"
  from trig [OF this] obtain a w where w: "list_all cls w" "prefix (a # w) t"
    "\<forall>t'. prefix (a # w) t' \<longrightarrow> start t'" by blast
  from w(2) suf have "sublist (a # w) (remove_runs start cls s)"
    by (auto simp: sublist_altdef')
  with remove_runs_no_trigger [OF w(1) w(3)] show False by blast
qed

lemma remove_urls_clean: "suffix t (remove_urls s) \<Longrightarrow> \<not> url_start t"
  unfolding remove_urls_def
proof (rule remove_runs_clean [where cls = nonspace and start = url_start])
  fix t assume "url_start t"
  then obtain c where c: "nonspace c" "prefix (''http'' @ [c]) t \<or> prefix (''www'' @ [c]) t"
    by (auto simp: url_start_iff)
  from c(2) show "\<exists>a w. list_all nonspace w \<and> prefix (a # w) t
                   \<and> (\<forall>t'. prefix (a # w) t' \<longrightarrow> url_start t')"
  proof
    assume "prefix (''http'' @ [c]) t"
    with c(1) have "list_all nonspace (''ttp'' @ [c]) \<and> prefix (CHR ''h'' # ''ttp'' @ [c]) t
        \<and> (\<forall>t'. prefix (CHR ''h'' # ''ttp'' @ [c]) t' \<longrightarrow> url_start t')"
      by (auto simp: url_start_iff)
    then show ?thesis by blast
  next
    assume "prefix (''www'' @ [c]) t"
    with c(1) have "list_all nonspace (''ww'' @ [c]) \<and> prefix (CHR ''w'' # ''ww'' @ [c]) t
        \<and> (\<forall>t'. prefix (CHR ''w'' # ''ww'' @ [c]) t' \<longrightarrow> url_start t')"
      by (auto simp: url_start_iff)
    then show ?thesis by blast
  qed
qed

lemma remove_tags_clean: "suffix t (remove_tags s) \<Longrightarrow> \<not> tag_start t"
  unfolding remove_tags_def
proof (rule remove_runs_clean [where cls = isword and start = tag_start])
  fix t assume "tag_start t"
  then obtain c where c: "isword c" "prefix [CHR ''@'', c] t \<or> prefix [CHR ''#'', c] t"
    by (auto simp: tag_start_iff)
  from c(2) show "\<exists>a w. list_all isword w \<and> prefix (a # w) t
                   \<and> (\<forall>t'. prefix (a # w) t' \<longrightarrow> tag_start t')"
  proof
    assume "prefix [CHR ''@'', c] t"
    with c(1) have "list_all isword [c] \<and> prefix (CHR ''@'' # [c]) t
        \<and> (\<forall>t'. prefix (CHR ''@'' # [c]) t' \<longrightarrow> tag_start t')"
      by (auto simp: tag_start_iff)
    then show ?thesis by blast
  next
    assume "prefix [CHR ''#'', c] t"
    with c(1) have "list_all isword [c] \<and> prefix (CHR ''#'' # [c]) t
        \<and> (\<forall>t'. prefix (CHR ''#'' # [c]) t' \<longrightarrow> tag_start t')"
      by (auto simp: tag_start_iff)
    then show ?thesis by blast
  qed
qed

lemma tag_start_head: "tag_start (a # t) \<Longrightarrow> a = CHR ''@'' \<or> a = CHR ''#''"
  by (auto simp: tag_start_iff)

lemma remove_tags_word:
  "list_all isword l \<Longrightarrow> remove_tags (l @ r) = l @ remove_tags r"
proof (induction l)
  case Nil
  show ?case by simp
next
  case (Cons a l)
  then have "isword a" by simp
  then have "\<not> tag_start (a # l @ r)" by (auto dest: tag_start_head)
  with Cons show ?case by (simp add: remove_tags_def)
qed

lemma remove_tags_url_head:
  assumes "url_start (remove_tags s)"
  shows "url_start s"
proof -
  from assms obtain x l where x: "nonspace x" and l: "l = ''http'' \<or> l = ''www''"
    and p: "prefix (l @ [x]) (remove_tags s)"
    unfolding url_start_iff by blast
  from l have w: "list_all isword l" by auto
  from p have "prefix l (remove_tags s)" by (auto simp: prefix_def)
  with w have "prefix l s" unfolding remove_tags_def by (auto dest: remove_runs_prefix)
  then obtain r where s: "s = l @ r" by (auto simp: prefix_def)
  with p w have px: "prefix [x] (remove_tags r)" by (simp add: remove_tags_word)
  show ?thesis
  proof (cases r)
    case Nil
    with px show ?thesis by (simp add: remove_tags_def)
  next
    case (Cons d r')
    show ?thesis
    proof (cases "isspace d")
      case True
      then have "\<not> tag_start (d # r')" by (auto dest: tag_start_head simp: isspace_def)
      with px Cons have "x = d" by (simp add: remove_tags_def)
      with True x show ?thesis by (simp add: nonspace_def)
    next
      case False
      then have "nonspace d \<and> prefix (l @ [d]) s" using s Cons by (simp add: nonspace_def)
      with l show ?thesis unfolding url_start_iff by blast
    qed
  qed
qed

lemma remove_tags_keeps_clean:
  "(\<forall>t. suffix t s \<longrightarrow> \<not> url_start t) \<Longrightarrow> suffix t (remove_tags s) \<Longrightarrow> \<not> url_start t"
  unfolding remove_tags_def
proof (induction tag_start isword s arbitrary: t rule: remove_runs.induct)
  case 1
  then show ?case by (simp add: url_start_iff)
next
  case (2 c cs)
  show ?case
  proof (cases "tag_start (c # cs)")
    case True
    have "\<forall>t. suffix t (dropWhile isword cs) \<longrightarrow> \<not> url_start t"
    proof (intro allI impI)
      fix u assume "suffix u (dropWhile isword cs)"
      then have "suffix u (c # cs)"
        by (meson suffix_ConsI suffix_dropWhile suffix_order.trans)
      with "2.prems"(1) show "\<not> url_start u" by blast
    qed
    with "2.hyps"(1) [OF True] "2.prems"(2) True show ?thesis by simp
  next
    case False
    have rest: "\<forall>t. suffix t cs \<longrightarrow> \<not> url_start t"
      using "2.prems"(1) by (auto simp: suffix_ConsI)
    from "2.prems"(2) False have "suffix t (c # remove_runs tag_start isword cs)" by simp
    then consider "t = c # remove_runs tag_start isword cs"
      | "suffix t (remove_runs tag_start isword cs)"
      by (auto simp: suffix_Cons)
    then show ?thesis
    proof cases
      case 1
      with False have "t = remove_tags (c # cs)" by (simp add: remove_tags_def)
      moreover have "\<not> url_start (c # cs)" using "2.prems"(1) by simp
      ultimately show ?thesis by (auto dest: remove_tags_url_head)
    next
      case 2
      with "2.hyps"(2) [OF False rest] show ?thesis .
    qed
  qed
qed

section \<open>Words and blanks\<close>

declare split.simps [simp del]

lemma split_Nil: "dropWhile isspace s = [] \<Longrightarrow> split s = []"
  by (subst split.simps) (simp del: dropWhile_eq_Nil_conv)

lemma split_Cons:
  "dropWhile isspace s = c # cs \<Longrightarrow>
     split s = takeWhile nonspace (c # cs) # split (dropWhile nonspace (c # cs))"
  by (subst split.simps) simp

lemma dropWhile_isspace_head: "dropWhile isspace s = c # cs \<Longrightarrow> nonspace c"
  unfolding nonspace_def by (metis hd_dropWhile list.sel(1) list.distinct(1))

lemma dropWhile_nonspace_head: "dropWhile nonspace s = c # cs \<Longrightarrow> isspace c"
  using hd_dropWhile [of nonspace s] by (auto simp: nonspace_def)

lemma split_words: "w \<in> set (split s) \<Longrightarrow> w \<noteq> [] \<and> list_all nonspace w"
proof (induction s rule: split.induct)
  case (1 s)
  show ?case
  proof (cases "dropWhile isspace s")
    case Nil
    with "1.prems" show ?thesis by (simp add: split_Nil)
  next
    case (Cons c cs)
    then have c: "nonspace c" by (rule dropWhile_isspace_head)
    from "1.prems" Cons consider "w = takeWhile nonspace (c # cs)"
      | "w \<in> set (split (dropWhile nonspace (c # cs)))"
      by (auto simp: split_Cons)
    then show ?thesis
    proof cases
      case 1
      with c show ?thesis by (auto simp: list_all_iff dest: set_takeWhileD)
    next
      case 2
      with "1.IH" [OF Cons] show ?thesis .
    qed
  qed
qed

lemma split_space: "isspace c \<Longrightarrow> split (c # cs) = split cs"
  by (subst split.simps, subst (2) split.simps) simp

lemma split_word:
  assumes "w \<noteq> []" "list_all nonspace w" "r = [] \<or> isspace (hd r)"
  shows "split (w @ r) = w # split r"
proof -
  obtain c cs where w: "w = c # cs" using assms(1) by (cases w) auto
  with assms(2) have c: "nonspace c" by simp
  then have d: "dropWhile isspace (w @ r) = c # (cs @ r)" by (simp add: w nonspace_def)
  have all: "\<forall>x\<in>set w. nonspace x" using assms(2) by (simp add: list_all_iff)
  have t: "takeWhile nonspace (w @ r) = w"
    using all assms(3) by (cases r) (auto simp: takeWhile_append2 nonspace_def)
  have e: "dropWhile nonspace (w @ r) = r"
    using all assms(3) by (cases r) (auto simp: dropWhile_append2 nonspace_def)
  from split_Cons [OF d] t e show ?thesis by (simp add: w)
qed

lemma join_Cons: "join sep (w # ws) = (if ws = [] then w else w @ sep @ join sep ws)"
  by (cases ws) simp_all

lemma split_join:
  "(\<forall>w \<in> set ws. w \<noteq> [] \<and> list_all nonspace w) \<Longrightarrow> split (join '' '' ws) = ws"
proof (induction ws)
  case Nil
  show ?case by (simp add: split_Nil)
next
  case (Cons w ws)
  then have w: "w \<noteq> []" "list_all nonspace w" by simp_all
  show ?case
  proof (cases ws)
    case Nil
    with split_word [OF w, of "[]"] show ?thesis by (simp add: split_Nil)
  next
    case (Cons v vs)
    have "split (w @ CHR '' '' # join '' '' ws) = w # split (CHR '' '' # join '' '' ws)"
      by (rule split_word [OF w]) simp
    also have "\<dots> = w # split (join '' '' ws)" by (simp add: split_space)
    also have "\<dots> = w # ws" using Cons.IH Cons.prems by simp
    finally show ?thesis using Cons by simp
  qed
qed

lemma join_words_ends:
  "(\<forall>w \<in> set ws. w \<noteq> [] \<and> list_all nonspace w) \<Longrightarrow> ws \<noteq> [] \<Longrightarrow>
     join '' '' ws \<noteq> [] \<and> nonspace (hd (join '' '' ws)) \<and> nonspace (last (join '' '' ws))"
proof (induction ws)
  case Nil
  then show ?case by simp
next
  case (Cons w ws)
  then have w: "w \<noteq> []" "list_all nonspace w" by simp_all
  then have hl: "nonspace (hd w)" "nonspace (last w)" by (auto simp: list_all_iff)
  show ?case
  proof (cases "ws = []")
    case True
    with w hl show ?thesis by simp
  next
    case False
    with Cons have "join '' '' ws \<noteq> []" "nonspace (last (join '' '' ws))" by simp_all
    with False w hl show ?thesis by (simp add: join_Cons)
  qed
qed

lemma strip_id:
  assumes "t = [] \<or> (nonspace (hd t) \<and> nonspace (last t))"
  shows "strip t = t"
proof (cases "t = []")
  case True
  then show ?thesis by (simp add: strip_def)
next
  case False
  with assms have h: "\<not> isspace (hd t)" and l: "\<not> isspace (last t)"
    by (simp_all add: nonspace_def)
  from h have "dropWhile isspace t = t" by (simp add: dropWhile_eq_self_iff)
  moreover have "dropWhile isspace (rev t) = rev t"
    using l False by (simp add: dropWhile_eq_self_iff hd_rev)
  ultimately show ?thesis by (simp add: strip_def)
qed

lemma strip_join:
  assumes "\<forall>w \<in> set ws. w \<noteq> [] \<and> list_all nonspace w"
  shows "strip (join '' '' ws) = join '' '' ws"
proof (cases "ws = []")
  case True
  then show ?thesis by (simp add: strip_def)
next
  case False
  with join_words_ends [OF assms] show ?thesis by (intro strip_id) simp
qed

lemma join_words_blanks:
  "(\<forall>w \<in> set ws. w \<noteq> [] \<and> list_all nonspace w) \<Longrightarrow> c \<in> set (join '' '' ws) \<Longrightarrow>
     isspace c \<Longrightarrow> c = CHR '' ''"
proof (induction ws)
  case Nil
  then show ?case by simp
next
  case (Cons w ws)
  then show ?case
    by (auto simp: join_Cons list_all_iff nonspace_def split: if_splits)
qed

lemma join_words_single:
  "(\<forall>w \<in> set ws. w \<noteq> [] \<and> list_all nonspace w) \<Longrightarrow> sublist [a, b] (join '' '' ws) \<Longrightarrow>
     nonspace a \<or> nonspace b"
proof (induction ws)
  case Nil
  then show ?case by simp
next
  case (Cons w ws)
  then have w: "w \<noteq> []" "list_all nonspace w" by simp_all
  have inw: "nonspace a" if "sublist [a, b] w"
  proof -
    from that have "a \<in> set w" by (auto simp: sublist_def)
    with w show ?thesis by (simp add: list_all_iff)
  qed
  show ?case
  proof (cases "ws = []")
    case True
    with Cons.prems inw show ?thesis by simp
  next
    case False
    with Cons.prems have e: "join '' '' ws \<noteq> []" "nonspace (hd (join '' '' ws))"
      using join_words_ends [of ws] by simp_all
    from False Cons.prems(2) have "sublist [a, b] (w @ CHR '' '' # join '' '' ws)"
      by (simp add: join_Cons)
    then consider "sublist [a, b] w" | "sublist [a, b] (CHR '' '' # join '' '' ws)"
      | "suffix [a] w"
      by (auto simp: sublist_append append_eq_Cons_conv Cons_eq_append_conv)
    then show ?thesis
    proof cases
      case 1
      then show ?thesis using inw by simp
    next
      case 2
      then consider "prefix [a, b] (CHR '' '' # join '' '' ws)" | "sublist [a, b] (join '' '' ws)"
        by (auto simp: sublist_Cons_right)
      then show ?thesis
      proof cases
        case 1
        then have "prefix [b] (join '' '' ws)" by simp
        with e have "b = hd (join '' '' ws)" by (cases "join '' '' ws") auto
        with e show ?thesis by simp
      next
        case 2
        with Cons.IH Cons.prems show ?thesis by simp
      qed
    next
      case 3
      then have "a \<in> set w" by (auto simp: suffix_def)
      with w show ?thesis by (simp add: list_all_iff)
    qed
  qed
qed

section \<open>Whitespace steps compared\<close>

lemma prefix_avoid:
  "x \<notin> set w \<Longrightarrow> prefix w (a @ x # b) \<Longrightarrow> prefix w a"
  by (auto simp: prefix_append prefix_Cons)

lemma sublist_avoid:
  "x \<notin> set w \<Longrightarrow> sublist w (a @ x # b) \<Longrightarrow> sublist w a \<or> sublist w b"
proof (induction a)
  case Nil
  then show ?case by (cases w) (auto simp: sublist_Cons_right)
next
  case (Cons y a)
  from Cons.prems(2) consider "prefix w (y # a @ x # b)" | "sublist w (a @ x # b)"
    by (auto simp: sublist_Cons_right)
  then show ?case
  proof cases
    case 1
    then have "prefix w ((y # a) @ x # b)" by simp
    with Cons.prems(1) have "prefix w (y # a)" by (rule prefix_avoid)
    then show ?thesis by auto
  next
    case 2
    with Cons.IH Cons.prems(1) show ?thesis by (auto simp: sublist_Cons_right)
  qed
qed

lemma sublist_suffix_trans: "sublist w r \<Longrightarrow> suffix r s \<Longrightarrow> sublist w s"
  by (auto simp: sublist_def suffix_def) (metis append_assoc)

lemma sublist_prefix_trans: "sublist w r \<Longrightarrow> prefix r s \<Longrightarrow> sublist w s"
  by (auto simp: sublist_def prefix_def) (metis append_assoc)

lemma split_join_sublist:
  "w \<noteq> [] \<Longrightarrow> list_all nonspace w \<Longrightarrow> sublist w (join '' '' (split s)) \<Longrightarrow> sublist w s"
proof (induction s rule: split.induct)
  case (1 s)
  show ?case
  proof (cases "dropWhile isspace s")
    case Nil
    with "1.prems" show ?thesis by (simp add: split_Nil del: dropWhile_eq_Nil_conv)
  next
    case (Cons c cs)
    define tok where "tok = takeWhile nonspace (c # cs)"
    define rem where "rem = dropWhile nonspace (c # cs)"
    have parts: "dropWhile isspace s = tok @ rem"
      unfolding tok_def rem_def Cons by (simp only: takeWhile_dropWhile_id)
    have sp: "split s = tok # split rem"
      unfolding tok_def rem_def by (rule split_Cons [OF Cons])
    have IH: "sublist w (join '' '' (split rem)) \<Longrightarrow> sublist w rem"
      unfolding rem_def using "1.IH" [OF Cons "1.prems"(1,2)] .
    have rs: "suffix (tok @ rem) s" using parts by (metis suffix_dropWhile)
    have blank: "CHR '' '' \<notin> set w"
      using "1.prems"(2) by (auto simp: list_all_iff nonspace_def)
    from "1.prems"(3) have "sublist w (join '' '' (tok # split rem))" by (simp only: sp)
    then have "sublist w tok \<or> sublist w (join '' '' (split rem))"
      using sublist_avoid [OF blank, of tok "join '' '' (split rem)"]
      by (simp add: join_Cons split: if_splits)
    then have "sublist w (tok @ rem)"
    proof
      assume "sublist w tok"
      then show ?thesis by (rule sublist_prefix_trans) simp
    next
      assume "sublist w (join '' '' (split rem))"
      then have "sublist w rem" by (rule IH)
      then show ?thesis by (rule sublist_suffix_trans) (simp add: suffix_def)
    qed
    then show ?thesis using rs by (rule sublist_suffix_trans)
  qed
qed

lemma collapse_word:
  "list_all nonspace w \<Longrightarrow> collapse_whitespace (w @ r) = w @ collapse_whitespace r"
  by (induction w) (simp_all add: nonspace_def)

lemma trim_space: "isspace c \<Longrightarrow> trim (c # t) = trim t"
  by (simp add: trim_def)

lemma trim_collapse_lstrip:
  "trim (collapse_whitespace s) = trim (collapse_whitespace (dropWhile isspace s))"
  by (cases s) (simp_all add: trim_space)

lemma rtrim_Cons:
  "rev (dropWhile isspace (rev (x # t))) =
     (if isspace x \<and> rev (dropWhile isspace (rev t)) = [] then []
      else x # rev (dropWhile isspace (rev t)))"
  by (auto simp: dropWhile_append)

lemma rtrim_word:
  "w \<noteq> [] \<Longrightarrow> list_all nonspace w \<Longrightarrow>
     rev (dropWhile isspace (rev (w @ t))) = w @ rev (dropWhile isspace (rev t))"
proof -
  assume w: "w \<noteq> []" "list_all nonspace w"
  then have "\<not> isspace (last w)" by (auto simp: list_all_iff nonspace_def)
  then have "dropWhile isspace (rev w) = rev w"
    using w(1) by (simp add: dropWhile_eq_self_iff hd_rev)
  then show ?thesis by (auto simp: dropWhile_append)
qed

lemma trim_word:
  "w \<noteq> [] \<Longrightarrow> list_all nonspace w \<Longrightarrow>
     trim (w @ t) = w @ rev (dropWhile isspace (rev t))"
proof -
  assume w: "w \<noteq> []" "list_all nonspace w"
  then have "\<not> isspace (hd w)" by (auto simp: list_all_iff nonspace_def)
  then have "dropWhile isspace (w @ t) = w @ t"
    using w(1) by (simp add: dropWhile_eq_self_iff)
  with rtrim_word [OF w] show ?thesis by (simp add: trim_def)
qed

lemma collapse_lead:
  "dropWhile isspace (collapse_whitespace (dropWhile isspace s)) =
     collapse_whitespace (dropWhile isspace s)"
proof (cases "dropWhile isspace s")
  case Nil
  then show ?thesis by (simp del: dropWhile_eq_Nil_conv)
next
  case (Cons c cs)
  then have "\<not> isspace c" using dropWhile_isspace_head [OF Cons] by (simp add: nonspace_def)
  with Cons show ?thesis by simp
qed

lemma join_eq_Nil:
  "(\<forall>w \<in> set ws. w \<noteq> [] \<and> list_all nonspace w) \<Longrightarrow> join '' '' ws = [] \<longleftrightarrow> ws = []"
  using join_words_ends [of ws] by auto

lemma join_split_collapse:
  "join '' '' (split s) = trim (collapse_whitespace s)"
proof (induction s rule: split.induct)
  case (1 s)
  show ?case
  proof (cases "dropWhile isspace s")
    case Nil
    then have "trim (collapse_whitespace s) = []"
      by (subst trim_collapse_lstrip) (simp add: trim_def del: dropWhile_eq_Nil_conv)
    with Nil show ?thesis by (simp add: split_Nil del: dropWhile_eq_Nil_conv)
  next
    case (Cons c cs)
    define tok where "tok = takeWhile nonspace (c # cs)"
    define rem where "rem = dropWhile nonspace (c # cs)"
    have parts: "dropWhile isspace s = tok @ rem"
      unfolding tok_def rem_def Cons by (simp only: takeWhile_dropWhile_id)
    have sp: "split s = tok # split rem"
      unfolding tok_def rem_def by (rule split_Cons [OF Cons])
    have IH: "join '' '' (split rem) = trim (collapse_whitespace rem)"
      unfolding rem_def using "1.IH" [OF Cons] .
    have c: "nonspace c" using Cons by (rule dropWhile_isspace_head)
    then have tok: "tok \<noteq> []" "list_all nonspace tok"
      unfolding tok_def by (auto simp: list_all_iff dest: set_takeWhileD)
    have remhd: "rem = [] \<or> (\<exists>d ds. rem = d # ds \<and> isspace d)"
      unfolding rem_def using dropWhile_nonspace_head [of "c # cs"]
      by (cases "dropWhile nonspace (c # cs)") blast+
    have good: "\<forall>w \<in> set (split rem). w \<noteq> [] \<and> list_all nonspace w"
      using split_words by blast
    have "trim (collapse_whitespace s) = trim (collapse_whitespace (tok @ rem))"
      by (subst trim_collapse_lstrip) (simp only: parts)
    also have "collapse_whitespace (tok @ rem) = tok @ collapse_whitespace rem"
      using tok(2) by (rule collapse_word)
    also have "trim \<dots> = tok @ rev (dropWhile isspace (rev (collapse_whitespace rem)))"
      using tok by (rule trim_word)
    finally have lhs: "trim (collapse_whitespace s) =
        tok @ rev (dropWhile isspace (rev (collapse_whitespace rem)))" .
    have tail: "rev (dropWhile isspace (rev (collapse_whitespace rem))) =
        (if split rem = [] then [] else CHR '' '' # join '' '' (split rem))"
    proof (cases rem)
      case Nil
      then show ?thesis by (simp add: split_Nil del: dropWhile_eq_Nil_conv)
    next
      case (Cons d ds)
      with remhd have d: "isspace d" by simp
      define C where "C = collapse_whitespace (dropWhile isspace ds)"
      from Cons d have col: "collapse_whitespace rem = CHR '' '' # C" by (simp add: C_def)
      have "trim (collapse_whitespace rem) = trim C"
        by (simp add: col trim_space)
      also have "\<dots> = rev (dropWhile isspace (rev C))"
        unfolding C_def by (simp add: trim_def collapse_lead)
      finally have j: "join '' '' (split rem) = rev (dropWhile isspace (rev C))"
        using IH by simp
      have "split rem = [] \<longleftrightarrow> rev (dropWhile isspace (rev C)) = []"
        using join_eq_Nil [OF good] j by simp
      then show ?thesis
        by (simp only: col rtrim_Cons j) simp
    qed
    have "join '' '' (split s) = join '' '' (tok # split rem)"
      by (simp only: sp)
    also have "\<dots> = tok @ (if split rem = [] then [] else CHR '' '' # join '' '' (split rem))"
      by (simp add: join_Cons)
    finally show ?thesis using lhs tail by simp
  qed
qed

section \<open>Properties of clean_text\<close>

lemma matches_lit_run:
  "matches_seq [Lit l, OneOrMore cls] m \<Longrightarrow> starts_with l cls m"
proof -
  assume "matches_seq [Lit l, OneOrMore cls] m"
  then have p: "prefix l m" and "takeWhile cls (drop (length l) m) \<noteq> []"
    by (auto simp: list_ex_iff)
  then have "case drop (length l) m of [] \<Rightarrow> False | c # cs \<Rightarrow> cls c"
    by (cases "drop (length l) m") (auto split: if_splits)
  with p show ?thesis by (simp add: starts_with_def)
qed

lemma matches_url_start: "matches url_pattern m \<Longrightarrow> url_start m"
  unfolding matches_def url_pattern_def url_start_def
  by (auto simp del: matches_seq.simps dest: matches_lit_run)

lemma matches_tag_start: "matches tag_pattern m \<Longrightarrow> tag_start m"
  unfolding matches_def tag_pattern_def tag_start_def
  by (auto simp del: matches_seq.simps dest: matches_lit_run)

lemma start_prefix_mono:
  "url_start m \<Longrightarrow> prefix m t \<Longrightarrow> url_start t"
  "tag_start m \<Longrightarrow> prefix m t \<Longrightarrow> tag_start t"
  unfolding url_start_iff tag_start_iff by (meson prefix_order.trans)+

lemma clean_text_words:
  "clean_text s = join '' '' (split (remove_tags (remove_urls s)))"
proof -
  have "\<forall>w \<in> set (split (remove_tags (remove_urls s))). w \<noteq> [] \<and> list_all nonspace w"
    using split_words by blast
  then show ?thesis
    by (simp add: clean_text_def re_sub_url re_sub_tag strip_join)
qed

lemma removed_clean:
  assumes "suffix t (remove_tags (remove_urls s))"
  shows "\<not> url_start t" and "\<not> tag_start t"
proof -
  have "\<forall>t. suffix t (remove_urls s) \<longrightarrow> \<not> url_start t"
    using remove_urls_clean by blast
  then show "\<not> url_start t" using assms by (rule remove_tags_keeps_clean)
  show "\<not> tag_start t" using assms by (rule remove_tags_clean)
qed

lemma trigger_in_clean_text:
  assumes "w \<noteq> []" "list_all nonspace w" "sublist w (clean_text s)"
  shows "\<exists>t. suffix t (remove_tags (remove_urls s)) \<and> prefix w t"
proof -
  from assms have "sublist w (remove_tags (remove_urls s))"
    by (simp add: clean_text_words split_join_sublist)
  then show ?thesis by (auto simp: sublist_altdef')
qed

lemma clean_text_clean:
  assumes "suffix t (clean_text s)"
  shows "\<not> url_start t" and "\<not> tag_start t"
proof -
  show "\<not> url_start t"
  proof
    assume "url_start t"
    then obtain c l where c: "nonspace c" and l: "l = ''http'' \<or> l = ''www''"
      and p: "prefix (l @ [c]) t"
      unfolding url_start_iff by blast
    from p assms have "sublist (l @ [c]) (clean_text s)" by (auto simp: sublist_altdef')
    moreover have "l @ [c] \<noteq> []" "list_all nonspace (l @ [c])" using c l by auto
    ultimately obtain t' where t': "suffix t' (remove_tags (remove_urls s))" "prefix (l @ [c]) t'"
      using trigger_in_clean_text by blast
    from t'(2) c l have "url_start t'" unfolding url_start_iff by blast
    with removed_clean(1) [OF t'(1)] show False by simp
  qed
  show "\<not> tag_start t"
  proof
    assume "tag_start t"
    then obtain c l where c: "isword c" and l: "l = ''@'' \<or> l = ''#''"
      and p: "prefix (l @ [c]) t"
      unfolding tag_start_iff by (metis append_Cons append_Nil)
    from p assms have "sublist (l @ [c]) (clean_text s)" by (auto simp: sublist_altdef')
    moreover have "l @ [c] \<noteq> []" "list_all nonspace (l @ [c])"
      using c l by (auto dest: isword_nonspace)
    ultimately obtain t' where t': "suffix t' (remove_tags (remove_urls s))" "prefix (l @ [c]) t'"
      using trigger_in_clean_text by blast
    from t'(2) c l have "tag_start t'" unfolding tag_start_iff by auto
    with removed_clean(2) [OF t'(1)] show False by simp
  qed
qed

lemma remove_fixpoint:
  "(\<And>t. suffix t v \<Longrightarrow> \<not> url_start t) \<Longrightarrow> remove_urls v = v"
  "(\<And>t. suffix t v \<Longrightarrow> \<not> tag_start t) \<Longrightarrow> remove_tags v = v"
  unfolding remove_urls_def remove_tags_def by (rule remove_runs_fixpoint; blast)+

text \<open>
  C3. Cleaning is idempotent: the cleaned text holds no start of a URL and no start of a
  token, so the two substitutions leave it as it is, and it is a list of words joined by
  single blanks, which splitting and joining give back.
\<close>

theorem clean_text_idempotent: "clean_text (clean_text s) = clean_text s"
proof -
  define ws where "ws = split (remove_tags (remove_urls s))"
  have good: "\<forall>w \<in> set ws. w \<noteq> [] \<and> list_all nonspace w"
    unfolding ws_def using split_words by blast
  have v: "clean_text s = join '' '' ws" by (simp add: clean_text_words ws_def)
  have "remove_urls (clean_text s) = clean_text s"
    by (rule remove_fixpoint) (rule clean_text_clean)
  moreover have "remove_tags (clean_text s) = clean_text s"
    by (rule remove_fixpoint) (rule clean_text_clean)
  ultimately have "clean_text (clean_text s) = join '' '' (split (clean_text s))"
    by (simp add: clean_text_words)
  also have "\<dots> = join '' '' ws" using good by (simp add: v split_join)
  finally show ?thesis by (simp add: v)
qed

text \<open>
  C5. No substring of the cleaned text is a match of the URL pattern or of the token
  pattern, wherever it lies; equivalently no match starts at any position of the cleaned
  text. For the text of the repository's test the cleaned text is \<open>Check out this link:\<close>,
  which contains none of \<open>https://\<close>, \<open>@user\<close>, \<open>#hashtag\<close>.
\<close>

theorem clean_text_no_url_no_tag:
  "(\<forall>m. sublist m (clean_text s) \<longrightarrow> \<not> matches url_pattern m \<and> \<not> matches tag_pattern m)
   \<and> (\<forall>t. suffix t (clean_text s) \<longrightarrow> \<not> url_start t \<and> \<not> tag_start t)
   \<and> clean_text ''Check out this link: https://example.com @user #hashtag'' =
        ''Check out this link:''
   \<and> \<not> sublist ''https://''
         (clean_text ''Check out this link: https://example.com @user #hashtag'')
   \<and> \<not> sublist ''@user''
         (clean_text ''Check out this link: https://example.com @user #hashtag'')
   \<and> \<not> sublist ''#hashtag''
         (clean_text ''Check out this link: https://example.com @user #hashtag'')"
proof -
  have starts: "\<not> url_start t \<and> \<not> tag_start t" if "suffix t (clean_text s)" for t
    using clean_text_clean [OF that] by simp
  have subs: "\<not> matches url_pattern m \<and> \<not> matches tag_pattern m"
    if "sublist m (clean_text s)" for m
  proof -
    from that obtain t where t: "suffix t (clean_text s)" "prefix m t"
      by (auto simp: sublist_altdef')
    from starts [OF t(1)] t(2) show ?thesis
      by (auto dest: matches_url_start matches_tag_start start_prefix_mono)
  qed
  have ex: "clean_text ''Check out this link: https://example.com @user #hashtag'' =
        ''Check out this link:''"
    by code_simp
  have "\<not> sublist ''https://'' ''Check out this link:''" by code_simp
  moreover have "\<not> sublist ''@user'' ''Check out this link:''" by code_simp
  moreover have "\<not> sublist ''#hashtag'' ''Check out this link:''" by code_simp
  ultimately show ?thesis using starts subs by (simp only: ex) blast
qed

theorem clean_text_no_url_no_tag_witness:
  "sublist ''www.a.b/c'' ''see www.a.b/c #now'' \<and> matches url_pattern ''www.a.b/c''
   \<and> sublist ''#now'' ''see www.a.b/c #now'' \<and> matches tag_pattern ''#now''
   \<and> sublist ''see'' (clean_text ''see www.a.b/c #now'')
   \<and> \<not> matches url_pattern ''see'' \<and> \<not> matches tag_pattern ''see''
   \<and> suffix ''see'' (clean_text ''see www.a.b/c #now'')
   \<and> \<not> url_start ''see'' \<and> \<not> tag_start ''see''"
proof -
  have c: "clean_text ''see www.a.b/c #now'' = ''see''" by code_simp
  have u: "sublist ''www.a.b/c'' ''see www.a.b/c #now''" "matches url_pattern ''www.a.b/c''"
    by code_simp+
  have g: "sublist ''#now'' ''see www.a.b/c #now''" "matches tag_pattern ''#now''"
    by code_simp+
  show ?thesis
    using clean_text_no_url_no_tag [of "''see www.a.b/c #now''"]
    by (simp add: c u g)
qed

text \<open>
  C6. Each of the three statements of \<open>clean_text\<close> computes the step of the
  specification it stands for, on every text: the first substitution removes the URLs, the
  second the tokens, and split, join and strip collapse the whitespace runs and trim. So
  \<open>clean_text\<close> is the composition of the three steps in that order.
\<close>

theorem clean_text_composition:
  "re_sub url_pattern [] s = remove_urls s
   \<and> re_sub tag_pattern [] s = remove_tags s
   \<and> strip (join '' '' (split s)) = trim (collapse_whitespace s)
   \<and> clean_text s = clean_spec s"
proof -
  have ws: "strip (join '' '' (split t)) = trim (collapse_whitespace t)" for t
  proof -
    have "\<forall>w \<in> set (split t). w \<noteq> [] \<and> list_all nonspace w" using split_words by blast
    then have "strip (join '' '' (split t)) = join '' '' (split t)" by (rule strip_join)
    then show ?thesis by (simp only: join_split_collapse)
  qed
  have "clean_text s = clean_spec s"
    by (simp add: clean_text_def clean_spec_def re_sub_url re_sub_tag ws)
  with ws show ?thesis by (simp add: re_sub_url re_sub_tag)
qed

lemma whitespace_only:
  assumes "list_all isspace s"
  shows "clean_text s = []"
proof -
  have hd: "t = [] \<or> isspace (hd t)" if "suffix t s" for t
    using that assms by (cases t) (auto simp: suffix_def list_all_iff)
  have u: "\<not> url_start t" if "suffix t s" for t
    using hd [OF that] by (auto simp: url_start_iff prefix_def isspace_def)
  have g: "\<not> tag_start t" if "suffix t s" for t
    using hd [OF that] by (auto simp: tag_start_iff prefix_def isspace_def)
  have "remove_urls s = s" using u by (rule remove_fixpoint)
  moreover have "remove_tags s = s" using g by (rule remove_fixpoint)
  moreover have "dropWhile isspace s = []" using assms by (simp add: list_all_iff)
  ultimately show ?thesis by (simp add: clean_text_words split_Nil)
qed

text \<open>
  C10. The cleaned text is empty or starts and ends with a character that is not
  whitespace; no two adjacent characters of it are both whitespace; every whitespace
  character in it is the blank; and a text made of whitespace only cleans to the empty
  text.
\<close>

theorem clean_text_whitespace_normalized:
  "(clean_text s = [] \<or> (nonspace (hd (clean_text s)) \<and> nonspace (last (clean_text s))))
   \<and> (\<forall>a b. sublist [a, b] (clean_text s) \<longrightarrow> nonspace a \<or> nonspace b)
   \<and> (\<forall>c \<in> set (clean_text s). isspace c \<longrightarrow> c = CHR '' '')
   \<and> (list_all isspace s \<longrightarrow> clean_text s = [])"
proof -
  define ws where "ws = split (remove_tags (remove_urls s))"
  have good: "\<forall>w \<in> set ws. w \<noteq> [] \<and> list_all nonspace w"
    unfolding ws_def using split_words by blast
  have v: "clean_text s = join '' '' ws" by (simp add: clean_text_words ws_def)
  have "clean_text s = [] \<or> (nonspace (hd (clean_text s)) \<and> nonspace (last (clean_text s)))"
    unfolding v using join_words_ends [OF good] by (cases "ws = []") simp_all
  moreover have "\<forall>a b. sublist [a, b] (clean_text s) \<longrightarrow> nonspace a \<or> nonspace b"
    unfolding v using join_words_single [OF good] by blast
  moreover have "\<forall>c \<in> set (clean_text s). isspace c \<longrightarrow> c = CHR '' ''"
    unfolding v using join_words_blanks [OF good] by blast
  moreover have "list_all isspace s \<longrightarrow> clean_text s = []"
    using whitespace_only by blast
  ultimately show ?thesis by blast
qed

theorem clean_text_whitespace_normalized_witness:
  "list_all isspace [CHR '' '', CHR 0x09, CHR 0x0A, CHR '' '']
   \<and> clean_text [CHR '' '', CHR 0x09, CHR 0x0A, CHR '' ''] = []
   \<and> clean_text [CHR 0x09, CHR ''a'', CHR 0x0A, CHR '' '', CHR ''b'', CHR '' ''] = ''a b''
   \<and> sublist ''a '' (clean_text [CHR 0x09, CHR ''a'', CHR 0x0A, CHR '' '', CHR ''b'', CHR '' ''])
   \<and> (nonspace CHR ''a'' \<or> nonspace CHR '' '')
   \<and> CHR '' '' \<in> set (clean_text [CHR 0x09, CHR ''a'', CHR 0x0A, CHR '' '', CHR ''b'', CHR '' ''])
   \<and> isspace CHR '' ''"
proof -
  have w: "list_all isspace [CHR '' '', CHR 0x09, CHR 0x0A, CHR '' '']" by code_simp
  have c: "clean_text [CHR 0x09, CHR ''a'', CHR 0x0A, CHR '' '', CHR ''b'', CHR '' ''] = ''a b''"
    by code_simp
  have n: "nonspace CHR ''a''" by code_simp
  have sub: "sublist ''a '' ''a b''" by code_simp
  show ?thesis
    using clean_text_whitespace_normalized [of "[CHR '' '', CHR 0x09, CHR 0x0A, CHR '' '']"]
          clean_text_whitespace_normalized
            [of "[CHR 0x09, CHR ''a'', CHR 0x0A, CHR '' '', CHR ''b'', CHR '' '']"]
    using w by (simp add: c n sub)
qed

end
